theory Spec2Isabelle
  imports Main "HOL-Library.Word"
begin

unbundle bit_operations_syntax

section \<open>Common data\<close>

text \<open>
  A Python \<open>bytes\<close> value is a list of octets; iterating over it yields the
  integers \<open>0..255\<close>.
\<close>

type_synonym byte = "8 word"

section \<open>Variable-length integers (vx/vxt.py \<open>enc_vle\<close>, vx/vxr.py \<open>dec_vle\<close>)\<close>

text \<open>
  \<open>enc_vle\<close>: the \<open>while value >= 0x80\<close> loop appends \<open>octet + 0x80\<close> for the
  remainder of each division by 128, and the value left over is appended last.
  The argument is a natural number: on a negative \<open>value\<close> the source's
  \<open>ret.append(value)\<close> raises, and no caller passes one.
\<close>

function enc_vle_loop :: "nat \<Rightarrow> byte list \<Rightarrow> byte list" where
  "enc_vle_loop v ret =
     (if v \<ge> 0x80 then enc_vle_loop (v div 0x80) (ret @ [of_nat (v mod 0x80 + 0x80)])
      else ret @ [of_nat v])"
  by pat_completeness auto
termination
  by (relation "measure (\<lambda>(v, ret). v)") auto

declare enc_vle_loop.simps [simp del]

definition enc_vle :: "nat \<Rightarrow> byte list" where
  "enc_vle v = enc_vle_loop v []"

text \<open>
  \<open>dec_vle\<close> reads from an iterator, so the model returns what is left of it
  beside the pair \<open>(value, bytes eaten)\<close>. The two failures return \<open>(-1, 0)\<close>:
  the shift reaching 63 bits, and the iterator running dry.
\<close>

fun dec_vle_loop :: "int \<Rightarrow> nat \<Rightarrow> nat \<Rightarrow> byte list \<Rightarrow> (int \<times> nat) \<times> byte list" where
  "dec_vle_loop vret vpow nate [] = ((-1, 0), [])"
| "dec_vle_loop vret vpow nate (v # it) =
     (if v < 0x80 then ((vret OR push_bit vpow (uint v), nate + 1), it)
      else if vpow + 7 \<ge> 63 then ((-1, 0), it)
      else dec_vle_loop (vret OR push_bit vpow (uint v - 0x80)) (vpow + 7) (nate + 1) it)"

text \<open>
  In the second branch the source first updates \<open>vret\<close> and \<open>vpow\<close> and then
  tests \<open>vpow >= 63\<close>; the test is written on \<open>vpow + 7\<close> here.
\<close>

definition dec_vle_it :: "byte list \<Rightarrow> (int \<times> nat) \<times> byte list" where
  "dec_vle_it it = dec_vle_loop 0 0 0 it"

definition dec_vle :: "byte list \<Rightarrow> int \<times> nat" where
  "dec_vle buf = fst (dec_vle_it buf)"

section \<open>Volume history of the audio receiver (ax/axr.py \<open>A.run\<close>)\<close>

text \<open>
  Each iteration of the input loop runs \<open>vhist = vhist[-5:] + [peak]\<close> and then
  \<open>vol = max(vhist)\<close>. The slice \<open>vhist[-5:]\<close> keeps the last five entries, or
  all of them when there are fewer. Peaks are floats in the source; only their
  order matters here, so they are values of any linear order.
\<close>

definition vhist_push :: "'a list \<Rightarrow> 'a \<Rightarrow> 'a list" where
  "vhist_push vhist peak = drop (length vhist - 5) vhist @ [peak]"

text \<open>Python's \<open>max\<close> of a list; it raises \<open>ValueError\<close> on an empty one.\<close>

fun py_max :: "'a::linorder list \<Rightarrow> 'a option" where
  "py_max [] = None"
| "py_max (x # xs) = Some (fold max xs x)"

text \<open>
  The loop over the per-iteration peaks, started with \<open>vhist = []\<close>: for every
  iteration, the history after the update and the volume computed from it.
\<close>

fun vol_loop :: "'a::linorder list \<Rightarrow> 'a list \<Rightarrow> ('a list \<times> 'a option) list" where
  "vol_loop vhist [] = []"
| "vol_loop vhist (peak # peaks) =
     (let vhist' = vhist_push vhist peak; vol = py_max vhist'
      in (vhist', vol) # vol_loop vhist' peaks)"

section \<open>The debug joiner (ax/dbg/mux.py)\<close>

text \<open>
  Python's \<open>zip(*bs)\<close>: the rows of first, second, ... elements of the lists,
  as many rows as the shortest list has elements; no rows when there are no lists.
\<close>

function zip_star :: "'a list list \<Rightarrow> 'a list list" where
  "zip_star bs =
     (if bs = [] \<or> [] \<in> set bs then [] else map hd bs # zip_star (map tl bs))"
  by pat_completeness auto
termination
proof (relation "measure (\<lambda>bs. length (hd bs))")
  fix bs :: "'a list list"
  assume a: "\<not> (bs = [] \<or> [] \<in> set bs)"
  then have "hd bs \<noteq> []" by (cases bs) auto
  then show "(map tl bs, bs) \<in> measure (\<lambda>bs. length (hd bs))"
    using a by (simp add: hd_map)
qed simp

declare zip_star.simps [simp del]

text \<open>
  How the process ends. An exception that nothing catches ends a Python program
  with a traceback and exit status 1.
\<close>

datatype py_exit = Exit_normal | Uncaught_TypeError

fun exit_code :: "py_exit \<Rightarrow> nat" where
  "exit_code Exit_normal = 0"
| "exit_code Uncaught_TypeError = 1"

text \<open>
  The inner \<open>for n in range(nf)\<close> loop: \<open>f[n].read(1024)\<close> on each open file in
  turn (a file is the list of its unread bytes). An empty read sets \<open>bs = None\<close>
  and leaves the loop, which is the result \<open>None\<close>; otherwise the chunks read
  and the files advanced.
\<close>

fun mux_read :: "byte list list \<Rightarrow> (byte list list \<times> byte list list) option" where
  "mux_read [] = Some ([], [])"
| "mux_read (f # fs) =
     (let b = take 1024 f in
      if b = [] then None
      else case mux_read fs of
             None \<Rightarrow> None
           | Some (bs, fs') \<Rightarrow> Some (b # bs, drop 1024 f # fs'))"

text \<open>
  The outer \<open>while True\<close> loop has no exit of its own. After the inner loop the
  body always evaluates \<open>zip(*bs)\<close>; with \<open>bs = None\<close> that raises
  \<open>TypeError\<close>, which nothing catches. With no input files at all the loop
  reads nothing, writes nothing and never ends: the result \<open>None\<close>.
  The second component is what has been written to standard output.
\<close>

partial_function (option) mux_loop ::
  "byte list list \<Rightarrow> byte list \<Rightarrow> (py_exit \<times> byte list) option" where
  "mux_loop f out =
     (case mux_read f of
        None \<Rightarrow> Some (Uncaught_TypeError, out)
      | Some (bs, f') \<Rightarrow> mux_loop f' (out @ concat (zip_star bs)))"

definition mux :: "byte list list \<Rightarrow> (py_exit \<times> byte list) option" where
  "mux f = mux_loop f []"

section \<open>The streaming base64 stage (kx/kxt.py \<open>StreamBase64\<close>)\<close>

text \<open>
  \<open>base64.b64encode\<close> belongs to the Python standard library, not to the
  repository; it is written out here as RFC 4648 defines it: each group of
  three octets is a 24-bit number split into four 6-bit indices into the
  alphabet, and a tail of one or two octets is padded with \<open>=\<close>.
\<close>

definition b64chars :: string where
  "b64chars = ''ABCDEFGHIJKLMNOPQRSTUVWXYZabcdefghijklmnopqrstuvwxyz0123456789+/''"

definition b64c :: "nat \<Rightarrow> char" where
  "b64c n = b64chars ! (n mod 64)"

fun b64encode :: "byte list \<Rightarrow> string" where
  "b64encode [] = []"
| "b64encode [a] =
     (let n = unat a * 65536
      in [b64c (n div 262144), b64c (n div 4096), CHR ''='', CHR ''=''])"
| "b64encode [a, b] =
     (let n = unat a * 65536 + unat b * 256
      in [b64c (n div 262144), b64c (n div 4096), b64c (n div 64), CHR ''=''])"
| "b64encode (a # b # c # rest) =
     (let n = unat a * 65536 + unat b * 256 + unat c
      in [b64c (n div 262144), b64c (n div 4096), b64c (n div 64), b64c n])
     @ b64encode rest"

text \<open>
  \<open>StreamBase64.collect\<close> is a generator over the source generator. The source
  is the list of what it yields (\<open>Some\<close> chunk, or \<open>None\<close> for end of stream); the
  result is the list of what \<open>collect\<close> yields. The first argument is
  \<open>self.buf\<close>. A chunk that leaves fewer than three bytes buffered yields
  nothing (\<open>continue\<close>); at \<open>None\<close> the whole buffer is encoded and the loop is
  left; the generator always ends by yielding \<open>None\<close>.
\<close>

fun collect :: "byte list \<Rightarrow> byte list option list \<Rightarrow> string option list" where
  "collect buf [] = [None]"
| "collect buf (None # src) = [Some (b64encode buf), None]"
| "collect buf (Some b # src) =
     (let buf = buf @ b; ofs = length buf div 3 in
      if ofs = 0 then collect buf src
      else let ofs = ofs * 3 in
        Some (b64encode (take ofs buf)) # collect (drop ofs buf) src)"

text \<open>The chunks among the yielded values, without the closing \<open>None\<close>.\<close>

definition yielded :: "'a option list \<Rightarrow> 'a list" where
  "yielded ys = concat (map (\<lambda>y. case y of None \<Rightarrow> [] | Some c \<Rightarrow> [c]) ys)"

section \<open>Audio transmitter (ax/axt.py \<open>A.run\<close>)\<close>

text \<open>
  \<open>struct.pack(">HH", a, b)\<close>: two unsigned 16-bit fields, big-endian;
  \<open>struct.error\<close> (here \<open>None\<close>) when a field does not fit. \<open>struct.unpack\<close> of
  the same format wants exactly four bytes.
\<close>

definition pack_HH :: "nat \<Rightarrow> nat \<Rightarrow> byte list option" where
  "pack_HH a b =
     (if a < 65536 \<and> b < 65536
      then Some [of_nat (a div 256), of_nat (a mod 256), of_nat (b div 256), of_nat (b mod 256)]
      else None)"

fun unpack_HH :: "byte list \<Rightarrow> (nat \<times> nat) option" where
  "unpack_HH [a, b, c, d] = Some (unat a * 256 + unat b, unat c * 256 + unat d)"
| "unpack_HH _ = None"

text \<open>
  The extended slice \<open>buf[n :: k]\<close>: every \<open>k\<close>-th element from index \<open>n\<close> on.
  (Python refuses a step of 0; the transmitter takes no slice then, because
  \<open>range(nch)\<close> is empty.)
\<close>

function stride :: "nat \<Rightarrow> 'a list \<Rightarrow> 'a list" where
  "stride k [] = []"
| "stride k (x # xs) = x # stride k (drop (k - 1) xs)"
  by pat_completeness auto
termination
  by (relation "measure (\<lambda>(k, xs). length xs)") auto

definition py_slice :: "nat \<Rightarrow> nat \<Rightarrow> 'a list \<Rightarrow> 'a list" where
  "py_slice n k buf = stride k (drop n buf)"

text \<open>
  One buffer per channel, each prefixed with the magic and its length, written
  to the standard input of the channel's encoder process. \<open>procs\<close> holds, per
  channel, everything written to that process so far.
\<close>

datatype tx_error = Struct_error

fun tx_frames :: "byte list list \<Rightarrow> tx_error + byte list list" where
  "tx_frames [] = Inr []"
| "tx_frames (b # bs) =
     (case pack_HH 0xCADE (length b) of
        None \<Rightarrow> Inl Struct_error
      | Some h \<Rightarrow> (case tx_frames bs of Inl e \<Rightarrow> Inl e | Inr fs \<Rightarrow> Inr ((h @ b) # fs)))"

definition tx_send :: "nat \<Rightarrow> byte list \<Rightarrow> byte list list \<Rightarrow> tx_error + byte list list" where
  "tx_send nch buf procs =
     (case tx_frames (map (\<lambda>n. py_slice n nch buf) [0..<nch]) of
        Inl e \<Rightarrow> Inl e
      | Inr bufs \<Rightarrow> Inr (map (\<lambda>(p, buf). p @ buf) (zip procs bufs)))"

text \<open>
  The read loop of \<open>run\<close>. \<open>stdin\<close> is what is left of standard input;
  \<open>sys.stdin.buffer.read(k)\<close> returns \<open>k\<close> bytes, or what is left when fewer are.
  \<open>rem\<close> carries the bytes that did not fill a whole round over all channels.
\<close>

function tx_loop :: "nat \<Rightarrow> byte list \<Rightarrow> byte list \<Rightarrow> byte list list \<Rightarrow> tx_error + byte list list" where
  "tx_loop nch stdin rem procs =
     (let buf = take ((32767 - 4) * nch) stdin;
          stdin' = drop ((32767 - 4) * nch) stdin
      in if buf \<noteq> [] then
           (let buf = rem @ buf; n = length buf mod nch;
                rem' = (if n \<noteq> 0 then drop (length buf - n) buf else []);
                buf' = (if n \<noteq> 0 then take (length buf - n) buf else buf)
            in case tx_send nch buf' procs of
                 Inl e \<Rightarrow> Inl e
               | Inr procs' \<Rightarrow> tx_loop nch stdin' rem' procs')
         else if rem = [] then Inr procs
         else (case tx_send nch rem procs of
                 Inl e \<Rightarrow> Inl e
               | Inr procs' \<Rightarrow> tx_loop nch stdin' [] procs'))"
  by pat_completeness auto
termination
proof (relation "measure (\<lambda>(nch, stdin, rem, procs). nch * length stdin + length rem)")
  show "wf (measure (\<lambda>(nch, stdin, rem, procs). nch * length stdin + length rem))" by simp
next
  fix nch :: nat and stdin rem :: "byte list" and procs :: "byte list list"
    and x xa xb xc xd xe x2
  assume a: "x = take ((32767 - 4) * nch) stdin" "xa = drop ((32767 - 4) * nch) stdin"
    "x \<noteq> []" "xb = rem @ x" "xc = length xb mod nch"
    "xd = (if xc \<noteq> 0 then drop (length xb - xc) xb else [])"
  from a(1,3) have n0: "nch > 0" by (cases nch) auto
  from a(1,3) have s: "stdin \<noteq> []" by auto
  have "length xa < length stdin" using a(2) n0 s by (cases stdin) auto
  then have "Suc (length xa) \<le> length stdin" by simp
  then have "nch * Suc (length xa) \<le> nch * length stdin" by (rule mult_le_mono2)
  moreover have "length xd < nch" using a(5,6) n0 by (auto simp: less_imp_diff_less)
  ultimately have "nch * length xa + length xd < nch * length stdin + length rem"
    by simp
  then show "((nch, xa, xd, x2), nch, stdin, rem, procs)
       \<in> measure (\<lambda>(nch, stdin, rem, procs). nch * length stdin + length rem)"
    by simp
next
  fix nch :: nat and stdin rem :: "byte list" and procs :: "byte list list" and x xa x2
  assume a: "x = take ((32767 - 4) * nch) stdin" "xa = drop ((32767 - 4) * nch) stdin"
    "\<not> x \<noteq> []" "rem \<noteq> []"
  from a(1,3) have "nch = 0 \<or> stdin = []" by (cases nch) auto
  then have z: "nch * length xa = 0" using a(2) by auto
  have "0 < nch * length stdin + length rem" using a(4) by simp
  then have "nch * length xa + length ([] :: byte list) < nch * length stdin + length rem"
    by (simp only: z list.size add_0)
  then show "((nch, xa, [], x2), nch, stdin, rem, procs)
       \<in> measure (\<lambda>(nch, stdin, rem, procs). nch * length stdin + length rem)"
    by simp
qed

declare tx_loop.simps [simp del]

text \<open>
  \<open>run\<close>: every encoder first receives 64 zero bytes and \<open>0xFF\<close>, then its
  frames, and 128 zero bytes at the end. The result is the byte stream sent into
  each channel.
\<close>

definition axt_run :: "nat \<Rightarrow> byte list \<Rightarrow> tx_error + byte list list" where
  "axt_run nch stdin =
     (case tx_loop nch stdin [] (replicate nch (replicate 64 0 @ [0xFF])) of
        Inl e \<Rightarrow> Inl e
      | Inr procs \<Rightarrow> Inr (map (\<lambda>p. p @ replicate 128 0) procs))"

section \<open>Audio receiver (ax/axr.py \<open>A.rd\<close>, \<open>A.emit\<close>, the closing loop of \<open>A.run\<close>)\<close>

text \<open>
  \<open>rd\<close>, the reader thread of one channel: it reads the decoder's output 256
  bytes at a time; while \<open>padding\<close> holds it strips leading zero bytes and
  waits for the \<open>0xFF\<close> mark, dropping chunks that do not start with it; after
  the mark everything is appended to the channel's buffer \<open>dec[ch]\<close>.
\<close>

function rd_loop :: "bool \<Rightarrow> byte list \<Rightarrow> byte list \<Rightarrow> byte list" where
  "rd_loop padding stdout dec =
     (let buf = take 256 stdout; stdout' = drop 256 stdout
      in if buf = [] then dec
         else if padding then
           (let buf = dropWhile (\<lambda>b. b = 0) buf
            in if buf \<noteq> [] \<and> hd buf = 0xFF then rd_loop False stdout' (dec @ tl buf)
               else rd_loop padding stdout' dec)
         else rd_loop padding stdout' (dec @ buf))"
  by pat_completeness auto
termination
  by (relation "measure (\<lambda>(padding, stdout, dec). length stdout)") auto

declare rd_loop.simps [simp del]

definition rd :: "byte list \<Rightarrow> byte list" where
  "rd stdout = rd_loop True stdout []"

text \<open>
  \<open>emit\<close>. The first loop parses one frame header per channel and returns
  \<open>False\<close> at the first channel that is not ready (fewer than 4 bytes, a
  magic that is wrong with size 0, or fewer bytes than the size says); a wrong
  magic with a nonzero size is the fatal desync, \<open>sys.exit(1)\<close>.
\<close>

datatype rx_error = Desync_exit | Rx_struct_error | Rx_IndexError

datatype emit_parse = Not_ready | Fatal rx_error | Sizes "nat list"

fun emit_szs :: "byte list list \<Rightarrow> emit_parse" where
  "emit_szs [] = Sizes []"
| "emit_szs (buf # dec) =
     (if length buf < 4 then Not_ready
      else case unpack_HH (take 4 buf) of
        None \<Rightarrow> Fatal Rx_struct_error
      | Some (magic, sz) \<Rightarrow>
          if magic \<noteq> 0xCADE then (if sz = 0 then Not_ready else Fatal Desync_exit)
          else if length buf < sz + 4 then Not_ready
          else (case emit_szs dec of Sizes szs \<Rightarrow> Sizes (sz # szs) | r \<Rightarrow> r))"

text \<open>
  \<open>for n in range(1, len(bufs))\<close>: a payload shorter than the (already padded)
  one before it gets four zero bytes appended.
\<close>

fun emit_pad :: "byte list \<Rightarrow> byte list list \<Rightarrow> byte list list" where
  "emit_pad prev [] = []"
| "emit_pad prev (b # bufs) =
     (let b = (if length b < length prev then b @ replicate 4 0 else b)
      in b # emit_pad b bufs)"

record rx_state =
  dec :: "byte list list"
  emitted :: nat

text \<open>
  The result of \<open>emit\<close>: its return value, what it wrote to standard output,
  and the new state. The frames are taken out of the buffers before the test
  \<open>if not bufs[0]\<close>, so that a round of empty frames is consumed and reported as
  \<open>False\<close>. \<open>bufs[0]\<close> raises \<open>IndexError\<close> when there is no channel.
\<close>

definition emit :: "rx_state \<Rightarrow> rx_error + (bool \<times> byte list \<times> rx_state)" where
  "emit s =
     (case emit_szs (dec s) of
        Not_ready \<Rightarrow> Inr (False, [], s)
      | Fatal e \<Rightarrow> Inl e
      | Sizes szs \<Rightarrow>
          (let bufs = map (\<lambda>(x, sz). take sz (drop 4 x)) (zip (dec s) szs);
               s = s\<lparr>dec := map (\<lambda>(x, sz). drop (sz + 4) x) (zip (dec s) szs)\<rparr>
           in case bufs of
                [] \<Rightarrow> Inl Rx_IndexError
              | b0 # rest \<Rightarrow>
                  if b0 = [] then Inr (False, [], s)
                  else (let bufs = b0 # emit_pad b0 rest;
                            out = take (sum_list szs) (concat (zip_star bufs))
                        in Inr (True, out, s\<lparr>emitted := emitted s + length b0\<rparr>))))"

text \<open>
  \<open>emit\<close> never makes the buffers longer, and makes them shorter when it
  returns \<open>True\<close>; the closing loop below terminates for that reason.
\<close>

lemma emit_szs_Sizes:
  "emit_szs d = Sizes szs \<Longrightarrow> list_all2 (\<lambda>x sz. sz + 4 \<le> length x) d szs"
proof (induction d arbitrary: szs)
  case Nil
  then show ?case by simp
next
  case (Cons buf d)
  then show ?case
    by (auto split: if_splits option.splits emit_parse.splits prod.splits)
qed

lemma emit_dec_shrinks:
  "list_all2 (\<lambda>x sz. sz + 4 \<le> length x) d szs \<Longrightarrow>
   sum_list (map length (map (\<lambda>(x, sz). drop (sz + 4) x) (zip d szs))) + 4 * length d
     \<le> sum_list (map length d)"
  by (induction d szs rule: list_all2_induct) auto

lemma emit_Sizes_dec:
  assumes "emit s = Inr (ok, w, s')" "emit_szs (dec s) = Sizes szs"
  shows "dec s' = map (\<lambda>(x, sz). drop (sz + 4) x) (zip (dec s) szs)"
    and "ok \<Longrightarrow> dec s \<noteq> []"
  using assms by (auto simp: emit_def Let_def split: list.splits if_splits)

lemma emit_total:
  assumes "emit s = Inr (ok, w, s')"
  shows "sum_list (map length (dec s')) \<le> sum_list (map length (dec s))"
    and "ok \<Longrightarrow> sum_list (map length (dec s')) < sum_list (map length (dec s))"
proof -
  show "sum_list (map length (dec s')) \<le> sum_list (map length (dec s))"
  proof (cases "emit_szs (dec s)")
    case Not_ready
    with assms show ?thesis by (simp add: emit_def)
  next
    case (Fatal e)
    with assms show ?thesis by (simp add: emit_def)
  next
    case (Sizes szs)
    from emit_dec_shrinks[OF emit_szs_Sizes[OF Sizes]]
    show ?thesis unfolding emit_Sizes_dec(1)[OF assms Sizes] by simp
  qed
  show "sum_list (map length (dec s')) < sum_list (map length (dec s))" if ok
  proof (cases "emit_szs (dec s)")
    case Not_ready
    with assms that show ?thesis by (simp add: emit_def)
  next
    case (Fatal e)
    with assms show ?thesis by (simp add: emit_def)
  next
    case (Sizes szs)
    have "dec s \<noteq> []" using emit_Sizes_dec(2)[OF assms Sizes] that by simp
    then have "0 < 4 * length (dec s)" by simp
    with emit_dec_shrinks[OF emit_szs_Sizes[OF Sizes]]
    show ?thesis unfolding emit_Sizes_dec(1)[OF assms Sizes] by linarith
  qed
qed

text \<open>
  The closing loop of \<open>run\<close>: \<open>emit\<close> is called until it has returned
  \<open>False\<close> 21 times in a row. The third argument is what has been written to
  standard output.
\<close>

function rx_flush :: "nat \<Rightarrow> rx_state \<Rightarrow> byte list \<Rightarrow> rx_error + (byte list \<times> rx_state)" where
  "rx_flush spins s out =
     (case emit s of
        Inl e \<Rightarrow> Inl e
      | Inr (ok, w, s') \<Rightarrow>
          if ok then rx_flush 0 s' (out @ w)
          else if spins + 1 > 20 then Inr (out, s')
          else rx_flush (spins + 1) s' out)"
  by pat_completeness auto
termination
proof (relation "measure (\<lambda>(spins, s, out). 22 * sum_list (map length (dec s)) + (21 - spins))")
  show "wf (measure (\<lambda>(spins, s, out). 22 * sum_list (map length (dec s)) + (21 - spins)))"
    by simp
next
  fix spins :: nat and s and out :: "byte list" and x2 x y xa ya
  assume "emit s = Inr x2" "(x, y) = x2" "(xa, ya) = y" "x"
  then have "emit s = Inr (True, xa, ya)" by auto
  from emit_total(2)[OF this] 
  show "((0, ya, out @ xa), spins, s, out)
          \<in> measure (\<lambda>(spins, s, out). 22 * sum_list (map length (dec s)) + (21 - spins))"
    by simp
next
  fix spins :: nat and s and out :: "byte list" and x2 x y xa ya
  assume "emit s = Inr x2" "(x, y) = x2" "(xa, ya) = y" "\<not> x" "\<not> 20 < spins + 1"
  then have "emit s = Inr (x, xa, ya)" and sp: "spins < 20" by auto
  from emit_total(1)[OF this(1)] sp
  show "((spins + 1, ya, out), spins, s, out)
          \<in> measure (\<lambda>(spins, s, out). 22 * sum_list (map length (dec s)) + (21 - spins))"
    by simp
qed

declare rx_flush.simps [simp del]

text \<open>
  The receiver on the bytes each decoder process delivers: the reader threads
  fill the buffers, the closing loop empties them.
\<close>

definition axr_emit_all :: "byte list list \<Rightarrow> rx_error + byte list" where
  "axr_emit_all stdouts =
     (case rx_flush 0 \<lparr>dec = map rd stdouts, emitted = 0\<rparr> [] of
        Inl e \<Rightarrow> Inl e
      | Inr (out, s) \<Rightarrow> Inr out)"

section \<open>Channel frames and their delivery (used to state the audio round trip)\<close>

text \<open>
  A Channel Frame as the transmitter builds it: the magic \<open>0xCADE\<close>, the payload
  length as 16 bits big-endian, the payload.
\<close>

definition frame :: "byte list \<Rightarrow> byte list" where
  "frame b = [0xCA, 0xDE, of_nat (length b div 256), of_nat (length b mod 256)] @ b"

text \<open>
  \<open>delivers b F0 F1 d\<close>: when the two channel buffers start with \<open>F0\<close> and
  \<open>F1\<close> and at most \<open>b\<close> empty calls of \<open>emit\<close> have been counted, the closing
  loop of the receiver writes \<open>d\<close> and goes on with what follows in the buffers.
\<close>

definition delivers :: "nat \<Rightarrow> byte list \<Rightarrow> byte list \<Rightarrow> byte list \<Rightarrow> bool" where
  "delivers b F0 F1 d \<longleftrightarrow>
     (\<forall>k\<le>b. \<forall>R0 R1 m out. \<exists>k' m'.
        rx_flush k \<lparr>dec = [F0 @ R0, F1 @ R1], emitted = m\<rparr> out
          = rx_flush k' \<lparr>dec = [R0, R1], emitted = m'\<rparr> (out @ d))"

(*PROPERTIES*)

section \<open>Properties of the variable-length integers\<close>

lemma or_push_bit_add:
  fixes a b :: int
  assumes "0 \<le> a" "a < 2 ^ n"
  shows "a OR push_bit n b = a + push_bit n b"
proof -
  have "a AND push_bit n b = 0"
  proof (rule bit_eqI)
    fix k
    have "bit a k \<Longrightarrow> k < n"
      using assms by (metis bit_take_bit_iff take_bit_int_eq_self)
    then show "bit (a AND push_bit n b) k = bit (0::int) k"
      by (auto simp: bit_simps)
  qed
  then show ?thesis by (simp add: disjunctive_add_eq_or)
qed

lemma unat_byte: "m < 256 \<Longrightarrow> unat (of_nat m :: byte) = m"
  by (simp only: unat_of_nat) simp

lemma byte_lt_0x80: "m < 256 \<Longrightarrow> (of_nat m :: byte) < 0x80 \<longleftrightarrow> m < 128"
  using unat_byte[of m] by (simp only: word_less_nat_alt) simp

lemma uint_byte: "m < 256 \<Longrightarrow> uint (of_nat m :: byte) = int m"
  using unat_byte[of m] by (simp only: uint_nat)

lemma bit7_byte: "m < 256 \<Longrightarrow> bit (of_nat m :: byte) 7 \<longleftrightarrow> 128 \<le> m"
proof -
  assume m: "m < 256"
  have "bit (of_nat m :: byte) 7 \<longleftrightarrow> bit m 7" by (simp add: bit_of_nat_iff)
  also have "\<dots> \<longleftrightarrow> odd (m div 128)" by (simp add: bit_iff_odd)
  also have "\<dots> \<longleftrightarrow> 128 \<le> m"
  proof (cases "128 \<le> m")
    case True
    with m have "m div 128 = 1" by simp
    then show ?thesis using True by simp
  next
    case False
    then show ?thesis by simp
  qed
  finally show ?thesis .
qed

lemma enc_vle_loop_acc: "enc_vle_loop v (a @ b) = a @ enc_vle_loop v b"
proof (induction v arbitrary: b rule: less_induct)
  case (less v)
  show ?case
  proof (cases "v \<ge> 0x80")
    case True
    then have "v div 0x80 < v" by simp
    from less[OF this, of "b @ [of_nat (v mod 0x80 + 0x80)]"] True
    show ?thesis by (subst (1 2) enc_vle_loop.simps) (simp only: append_assoc if_True)
  next
    case False
    then show ?thesis by (subst (1 2) enc_vle_loop.simps) simp
  qed
qed

lemma enc_vle_loop_unfold:
  "enc_vle_loop v [] =
     (if v \<ge> 0x80 then of_nat (v mod 0x80 + 0x80) # enc_vle_loop (v div 0x80) []
      else [of_nat v])"
  using enc_vle_loop_acc[of "v div 0x80" "[of_nat (v mod 0x80 + 0x80)]" "[]"]
  by (subst enc_vle_loop.simps) simp

text \<open>
  The decoder loop, started in any state whose accumulated value fits below the
  current shift, reads back an encoding and leaves the rest of the iterator. The
  bound is the decoder's own: the shift must stay below 63 bits.
\<close>

lemma dec_enc_loop:
  "v * 2 ^ vpow < 2 ^ 63 \<Longrightarrow> 0 \<le> vret \<Longrightarrow> vret < 2 ^ vpow \<Longrightarrow>
   dec_vle_loop vret vpow nate (enc_vle_loop v [] @ rest)
     = ((vret + int v * 2 ^ vpow, nate + length (enc_vle_loop v [])), rest)"
proof (induction v arbitrary: vret vpow nate rule: less_induct)
  case (less v)
  show ?case
  proof (cases "v \<ge> 0x80")
    case False
    then have v: "v < 128" "v < 256" by simp_all
    have e: "enc_vle_loop v [] = [of_nat v]"
      using False by (subst enc_vle_loop_unfold) simp
    show ?thesis
      using v less.prems
      by (simp only: e append_Cons append_Nil dec_vle_loop.simps byte_lt_0x80 uint_byte
            or_push_bit_add) (simp add: push_bit_eq_mult)
  next
    case True
    let ?o = "v mod 0x80 + 0x80"
    have o: "?o < 256" "\<not> ?o < 128" by simp_all
    have e: "enc_vle_loop v [] = of_nat ?o # enc_vle_loop (v div 0x80) []"
      using True by (subst enc_vle_loop_unfold) simp
    have pw: "2 ^ (vpow + 7) \<le> v * 2 ^ vpow"
      using True by (simp add: power_add mult.commute)
    with less.prems(1) have "(2::nat) ^ (vpow + 7) < 2 ^ 63" by simp
    then have vp: "vpow + 7 < 63" by (simp only: power_strict_increasing_iff)
    have d: "v div 0x80 < v" using True by simp
    have b1: "v div 0x80 * 2 ^ (vpow + 7) < 2 ^ 63"
    proof -
      have "v div 128 * 2 ^ (vpow + 7) = (v div 128 * 128) * 2 ^ vpow"
        by (simp add: power_add)
      also have "\<dots> \<le> v * 2 ^ vpow" by (rule mult_le_mono1) simp
      finally show ?thesis using less.prems(1) by simp
    qed
    let ?vret = "vret + int (v mod 0x80) * 2 ^ vpow"
    have b2: "0 \<le> ?vret" using less.prems by simp
    have b3: "?vret < 2 ^ (vpow + 7)"
    proof -
      have m: "int (v mod 0x80) * 2 ^ vpow \<le> 127 * (2 ^ vpow :: int)"
        by (intro mult_right_mono) simp_all
      have p: "(2::int) ^ (vpow + 7) = 128 * 2 ^ vpow" by (simp add: power_add)
      show ?thesis using m less.prems(3) unfolding p by linarith
    qed
    have or1: "vret OR push_bit vpow (uint (of_nat ?o :: byte) - 0x80) = ?vret"
      using o less.prems by (simp only: uint_byte or_push_bit_add) (simp add: push_bit_eq_mult)
    have "dec_vle_loop vret vpow nate (enc_vle_loop v [] @ rest)
            = dec_vle_loop ?vret (vpow + 7) (nate + 1) (enc_vle_loop (v div 0x80) [] @ rest)"
      using o vp or1 by (simp only: e append_Cons dec_vle_loop.simps byte_lt_0x80) simp
    also have "\<dots> = ((?vret + int (v div 0x80) * 2 ^ (vpow + 7),
                        nate + 1 + length (enc_vle_loop (v div 0x80) [])), rest)"
      by (rule less.IH[OF d b1 b2 b3])
    also have "?vret + int (v div 0x80) * 2 ^ (vpow + 7) = vret + int v * 2 ^ vpow"
    proof -
      have "int v = int (v div 0x80) * 128 + int (v mod 0x80)"
        by (simp add: zdiv_int zmod_int)
      then have "int v * 2 ^ vpow = int (v div 0x80) * 128 * 2 ^ vpow + int (v mod 0x80) * 2 ^ vpow"
        by (simp only: distrib_right)
      then show ?thesis by (simp add: power_add)
    qed
    finally show ?thesis by (simp add: e)
  qed
qed

lemma dec_vle_it_enc:
  "v < 2 ^ 63 \<Longrightarrow> dec_vle_it (enc_vle v @ rest) = ((int v, length (enc_vle v)), rest)"
  using dec_enc_loop[of v 0 0 0 rest] by (simp add: dec_vle_it_def enc_vle_def)

lemma enc_vle_loop_shape:
  "enc_vle_loop v [] \<noteq> [] \<and> \<not> bit (last (enc_vle_loop v [])) 7
     \<and> (\<forall>b \<in> set (butlast (enc_vle_loop v [])). bit b 7)"
proof (induction v rule: less_induct)
  case (less v)
  show ?case
  proof (cases "v \<ge> 0x80")
    case False
    then have v: "v < 256" "\<not> 128 \<le> v" by simp_all
    have e: "enc_vle_loop v [] = [of_nat v]"
      using False by (subst enc_vle_loop_unfold) simp
    show ?thesis using v by (simp add: e bit7_byte)
  next
    case True
    let ?o = "v mod 0x80 + 0x80"
    have o: "?o < 256" "128 \<le> ?o" by simp_all
    have e: "enc_vle_loop v [] = of_nat ?o # enc_vle_loop (v div 0x80) []"
      using True by (subst enc_vle_loop_unfold) simp
    have d: "v div 0x80 < v" using True by simp
    from less[OF d] bit7_byte[OF o(1)] o(2) show ?thesis
      by (simp only: e) simp
  qed
qed

text \<open>
  C4. For every non-negative integer \<open>v < 2^56\<close>, decoding the encoding of \<open>v\<close>
  returns the pair (\<open>v\<close>, number of bytes of the encoding), and the encoding's
  terminal byte has bit 7 clear while every preceding byte has bit 7 set.
\<close>

theorem vle_roundtrip:
  assumes "v < 2 ^ 56"
  shows "dec_vle (enc_vle v) = (int v, length (enc_vle v))
     \<and> enc_vle v \<noteq> []
     \<and> \<not> bit (last (enc_vle v)) 7
     \<and> (\<forall>b \<in> set (butlast (enc_vle v)). bit b 7)"
proof -
  have "(2::nat) ^ 56 \<le> 2 ^ 63" by simp
  with assms have "v < 2 ^ 63" by (rule less_le_trans)
  from dec_vle_it_enc[OF this, of "[]"]
  have "dec_vle (enc_vle v) = (int v, length (enc_vle v))"
    by (simp add: dec_vle_def)
  with enc_vle_loop_shape[of v] show ?thesis
    by (simp only: enc_vle_def) simp
qed

theorem vle_roundtrip_witness:
  "enc_vle 300 = [0xAC, 0x02] \<and> dec_vle [0xAC, 0x02] = (300, 2)
     \<and> \<not> bit (0x02 :: byte) 7 \<and> bit (0xAC :: byte) 7"
proof -
  have e: "enc_vle 300 = [0xAC, 0x02]"
    by (simp add: enc_vle_def enc_vle_loop.simps)
  have "(300::nat) < 2 ^ 56" by simp
  from vle_roundtrip[OF this] show ?thesis
    by (simp add: e)
qed

section \<open>Properties of the volume history\<close>

lemma py_max_Max: "xs \<noteq> [] \<Longrightarrow> py_max xs = Some (Max (set xs))"
  by (cases xs) (simp_all only: py_max.simps Max.set_eq_fold[symmetric], simp)

lemma vhist_push_last6:
  assumes "vhist = drop (length ps - 6) ps"
  shows "vhist_push vhist p = drop (length (ps @ [p]) - 6) (ps @ [p])"
proof -
  have "length ps - (length ps - 6 + 5) + (length ps - 6) = length ps - 5" by arith
  then show ?thesis by (simp add: vhist_push_def assms)
qed

text \<open>
  The loop invariant: entering an iteration, the history is the last six (or
  fewer) of the peaks seen so far.
\<close>

lemma vol_loop_gen:
  "vhist = drop (length ps - 6) ps \<Longrightarrow>
   vol_loop vhist qs =
     map (\<lambda>i. let w = drop (length ps + i + 1 - 6) (take (length ps + i + 1) (ps @ qs))
               in (w, Some (Max (set w)))) [0..<length qs]"
proof (induction qs arbitrary: vhist ps)
  case Nil
  then show ?case by simp
next
  case (Cons q qs)
  have h: "vhist_push vhist q = drop (length (ps @ [q]) - 6) (ps @ [q])"
    using Cons.prems by (rule vhist_push_last6)
  have ne: "vhist_push vhist q \<noteq> []" by (simp add: vhist_push_def)
  have map_shift: "\<And>f n. map f [0..<Suc n] = f 0 # map (\<lambda>i. f (Suc i)) [0..<n]"
    by (simp add: upt_conv_Cons map_Suc_upt[symmetric] del: upt_Suc)
  show ?case
    using Cons.IH[OF h] py_max_Max[OF ne]
    apply (simp add: Let_def map_shift del: upt_Suc)
    by (simp add: h)
qed

text \<open>
  C8, as the code has it. In iteration \<open>i\<close> (counted from 0) the history used
  for the volume holds the current peak and the (up to) five peaks before it,
  six readings at most, and the volume is their maximum.
\<close>

theorem vol_loop_window:
  assumes "i < length peaks"
  shows "vol_loop [] peaks ! i =
           (drop (i - 5) (take (Suc i) peaks),
            Some (Max (set (drop (i - 5) (take (Suc i) peaks)))))"
  using assms vol_loop_gen[of "[]" "[]" peaks] by (simp add: Let_def)

theorem vol_loop_window_witness:
  "vol_loop [] [9, 1, 1, 1, 1, 1, 1 :: int] ! 6 = ([1, 1, 1, 1, 1, 1], Some 1)"
  using vol_loop_window[of 6 "[9, 1, 1, 1, 1, 1, 1 :: int]"] by simp

text \<open>
  C8, as the claim states it, fails: after six iterations the history still
  holds the first peak, the sixth most recent one, and the volume is that peak,
  not the maximum of the five most recent.
\<close>

theorem vol_loop_five_counterexample:
  "vol_loop [] [9, 1, 1, 1, 1, 1 :: int] ! 5 = ([9, 1, 1, 1, 1, 1], Some 9)
     \<and> Max (set (drop (5 - 4) (take (Suc 5) [9, 1, 1, 1, 1, 1 :: int]))) = 1"
  by (simp add: vhist_push_def Let_def)

section \<open>Properties of the debug joiner\<close>

lemma mux_read_None: "mux_read fs = None \<longleftrightarrow> [] \<in> set fs"
  by (induction fs) (auto simp: Let_def split: option.splits)

lemma mux_read_Some:
  "[] \<notin> set fs \<Longrightarrow> mux_read fs = Some (map (take 1024) fs, map (drop 1024) fs)"
  by (induction fs) (auto simp: Let_def)

text \<open>The rows of \<open>zip(*fs)\<close> are those of the first \<open>n\<close> columns, then the rest.\<close>

lemma zip_star_split:
  "zip_star fs = zip_star (map (take n) fs) @ zip_star (map (drop n) fs)"
proof (induction n arbitrary: fs)
  case 0
  show ?case
  proof (cases "fs = []")
    case True
    then show ?thesis by (simp add: zip_star.simps)
  next
    case False
    then have "[] \<in> set (map (take 0) fs)" by (cases fs) simp_all
    then have "zip_star (map (take 0) fs) = []" by (subst zip_star.simps) simp
    then show ?thesis by simp
  qed
next
  case (Suc n)
  show ?case
  proof (cases "fs = [] \<or> [] \<in> set fs")
    case True
    then have a: "zip_star fs = []" by (subst zip_star.simps) simp
    from True have "map (take (Suc n)) fs = [] \<or> [] \<in> set (map (take (Suc n)) fs)"
      by force
    then have b: "zip_star (map (take (Suc n)) fs) = []" by (subst zip_star.simps) simp
    from True have "map (drop (Suc n)) fs = [] \<or> [] \<in> set (map (drop (Suc n)) fs)"
      by force
    then have c: "zip_star (map (drop (Suc n)) fs) = []" by (subst zip_star.simps) simp
    show ?thesis by (simp add: a b c)
  next
    case False
    then have ne: "\<And>f. f \<in> set fs \<Longrightarrow> f \<noteq> []" by auto
    have a: "zip_star fs = map hd fs # zip_star (map tl fs)"
      using False by (subst zip_star.simps) simp
    have t: "map (take (Suc n)) fs = map (\<lambda>f. hd f # take n (tl f)) fs"
      using ne by (intro map_cong refl) (simp add: take_Suc)
    have "\<not> (map (take (Suc n)) fs = [] \<or> [] \<in> set (map (take (Suc n)) fs))"
      using False by (auto simp: t)
    then have b: "zip_star (map (take (Suc n)) fs)
                    = map hd (map (take (Suc n)) fs) # zip_star (map tl (map (take (Suc n)) fs))"
      by (subst zip_star.simps) simp
    have b1: "map hd (map (take (Suc n)) fs) = map hd fs" by (simp add: t)
    have b2: "map tl (map (take (Suc n)) fs) = map (take n) (map tl fs)" by (simp add: t)
    have c: "map (drop (Suc n)) fs = map (drop n) (map tl fs)"
      by (simp add: drop_Suc)
    show ?thesis
      using Suc.IH[of "map tl fs"] by (simp only: a b b1 b2 c append_Cons)
  qed
qed

lemma mux_loop_result:
  "fs \<noteq> [] \<Longrightarrow> mux_loop fs out = Some (Uncaught_TypeError, out @ concat (zip_star fs))"
proof (induction "length (hd fs)" arbitrary: fs out rule: less_induct)
  case less
  show ?case
  proof (cases "[] \<in> set fs")
    case True
    then have "zip_star fs = []" by (subst zip_star.simps) simp
    moreover from True have "mux_read fs = None" by (simp add: mux_read_None)
    ultimately show ?thesis by (subst mux_loop.simps) simp
  next
    case False
    let ?fs' = "map (drop 1024) fs"
    have r: "mux_read fs = Some (map (take 1024) fs, ?fs')"
      using False by (rule mux_read_Some)
    have "hd fs \<noteq> []" using False less.prems by (cases fs) auto
    then have "length (hd ?fs') < length (hd fs)"
      using less.prems by (simp add: hd_map)
    moreover have "?fs' \<noteq> []" using less.prems by simp
    ultimately have "mux_loop ?fs' (out @ concat (zip_star (map (take 1024) fs)))
        = Some (Uncaught_TypeError,
                (out @ concat (zip_star (map (take 1024) fs))) @ concat (zip_star ?fs'))"
      by (rule less.hyps)
    then show ?thesis
      by (subst mux_loop.simps, subst zip_star_split[of fs 1024]) (simp add: r)
  qed
qed

text \<open>
  C9, what the code does. With at least one input file the joiner always ends,
  and always the same way: the first empty read makes \<open>zip(*bs)\<close> raise
  \<open>TypeError\<close>, so the process ends with exit status 1, never 0. What it has
  written by then is the byte-by-byte interleave of the files, cut where the
  shortest file ends.
\<close>

theorem mux_ends_by_TypeError:
  assumes "fs \<noteq> []"
  shows "mux fs = Some (Uncaught_TypeError, concat (zip_star fs))
     \<and> exit_code Uncaught_TypeError = 1"
  using mux_loop_result[OF assms, of "[]"] by (simp add: mux_def)

theorem mux_ends_by_TypeError_witness:
  "mux [[1, 2, 3], [4, 5]] = Some (Uncaught_TypeError, [1, 4, 2, 5])
     \<and> exit_code Uncaught_TypeError = 1"
  using mux_ends_by_TypeError[of "[[1, 2, 3], [4, 5]]"]
  by (simp add: zip_star.simps)

section \<open>Properties of the streaming base64 stage\<close>

lemma not3: "\<not> 3 dvd Suc 0" "\<not> 3 dvd Suc (Suc 0)" "3 dvd Suc (Suc (Suc n)) \<longleftrightarrow> 3 dvd n"
  by presburger+

lemma b64encode_append:
  "3 dvd length xs \<Longrightarrow> b64encode (xs @ ys) = b64encode xs @ b64encode ys"
  by (induction xs rule: b64encode.induct) (simp_all add: not3)

lemma b64c_not_pad: "b64c n \<noteq> CHR ''=''"
proof -
  have "b64c n \<in> set b64chars"
    unfolding b64c_def by (rule nth_mem) (simp add: b64chars_def)
  moreover have "CHR ''='' \<notin> set b64chars" by (simp add: b64chars_def)
  ultimately show ?thesis by metis
qed

lemma b64encode_no_pad: "3 dvd length xs \<Longrightarrow> CHR ''='' \<notin> set (b64encode xs)"
  by (induction xs rule: b64encode.induct) (simp_all add: not3 b64c_not_pad b64c_not_pad[symmetric] Let_def)

lemma yielded_simps [simp]:
  "yielded [] = []" "yielded (None # ys) = yielded ys" "yielded (Some c # ys) = c # yielded ys"
  by (simp_all add: yielded_def)

lemma take3_dvd: "3 dvd length (take (length xs div 3 * 3) xs)"
  by simp

lemma collect_concat:
  "concat (yielded (collect buf (map Some cs @ [None]))) = b64encode (buf @ concat cs)"
proof (induction cs arbitrary: buf)
  case Nil
  show ?case by simp
next
  case (Cons c cs)
  let ?buf = "buf @ c"
  let ?ofs = "length ?buf div 3 * 3"
  have "b64encode (take ?ofs ?buf) @ b64encode (drop ?ofs ?buf @ concat cs)
          = b64encode (take ?ofs ?buf @ drop ?ofs ?buf @ concat cs)"
    by (rule b64encode_append[symmetric]) (rule take3_dvd)
  also have "\<dots> = b64encode (?buf @ concat cs)"
    by (simp only: append_assoc[symmetric] append_take_drop_id)
  finally have e: "b64encode (take ?ofs ?buf) @ b64encode (drop ?ofs ?buf @ concat cs)
          = b64encode (buf @ c @ concat cs)" by simp
  show ?case
    using Cons.IH[of "?buf"] Cons.IH[of "drop ?ofs ?buf"] e
    by (simp add: Let_def)
qed

lemma collect_yields: "yielded (collect buf (map Some cs @ [None])) \<noteq> []"
  by (induction cs arbitrary: buf) (simp_all add: Let_def)

lemma collect_no_pad:
  "\<forall>y \<in> set (butlast (yielded (collect buf (map Some cs @ [None])))). CHR ''='' \<notin> set y"
proof (induction cs arbitrary: buf)
  case Nil
  show ?case by simp
next
  case (Cons c cs)
  show ?case
    using Cons.IH[of "buf @ c"] Cons.IH[of "drop (length (buf @ c) div 3 * 3) (buf @ c)"]
      b64encode_no_pad[OF take3_dvd, of "buf @ c"] collect_yields
    by (simp add: Let_def)
qed

lemma drop_groups:
  fixes b :: "'a list"
  defines "k \<equiv> length b div 3 * 3"
  shows "drop (length (b @ X) div 3 * 3) (b @ X)
           = drop (length (drop k b @ X) div 3 * 3) (drop k b @ X)"
proof -
  have k: "k \<le> length b" by (simp add: k_def)
  have lk: "length (take k b) = k" using k by simp
  have s: "b @ X = take k b @ (drop k b @ X)" by simp
  define m where "m = length (drop k b @ X)"
  have "length (b @ X) = k + m"
    using k by (simp add: m_def)
  moreover have "(k + m) div 3 * 3 = k + m div 3 * 3"
    by (simp add: k_def algebra_simps)
  ultimately have d: "length (b @ X) div 3 * 3 = k + length (drop k b @ X) div 3 * 3"
    by (simp only: m_def)
  have "drop (length (b @ X) div 3 * 3) (b @ X)
          = drop (k + length (drop k b @ X) div 3 * 3) (take k b @ (drop k b @ X))"
    unfolding d by (subst s) (rule refl)
  also have "\<dots> = drop (length (drop k b @ X) div 3 * 3) (drop k b @ X)"
    by (simp only: drop_append lk) simp
  finally show ?thesis .
qed

lemma collect_last:
  "length buf < 3 \<Longrightarrow>
   last (yielded (collect buf (map Some cs @ [None])))
     = b64encode (drop (length (buf @ concat cs) div 3 * 3) (buf @ concat cs))"
proof (induction cs arbitrary: buf)
  case Nil
  then show ?case by simp
next
  case (Cons c cs)
  define b where "b = buf @ c"
  let ?k = "length b div 3 * 3"
  let ?nb = "drop ?k b"
  have step: "collect buf (map Some (c # cs) @ [None]) =
     (if length b div 3 = 0 then collect b (map Some cs @ [None])
      else Some (b64encode (take ?k b)) # collect ?nb (map Some cs @ [None]))"
    by (simp add: Let_def b_def)
  have tgt: "buf @ concat (c # cs) = b @ concat cs" by (simp add: b_def)
  show ?case
  proof (cases "length b div 3 = 0")
    case True
    then have "length b < 3" by simp
    from Cons.IH[OF this] True show ?thesis unfolding step tgt by simp
  next
    case False
    have "length ?nb = length b mod 3"
      by (simp only: length_drop minus_div_mult_eq_mod)
    then have l: "length ?nb < 3" by simp
    from Cons.IH[OF l] False collect_yields[of ?nb cs] drop_groups[of b "concat cs"]
    show ?thesis unfolding step tgt by simp
  qed
qed


lemma collect_prefix:
  "length buf < 3 \<Longrightarrow>
   concat (yielded (collect buf (map Some cs)))
     = b64encode (take (length (buf @ concat cs) div 3 * 3) (buf @ concat cs))"
proof (induction cs arbitrary: buf)
  case Nil
  then show ?case by simp
next
  case (Cons c cs)
  define b where "b = buf @ c"
  define X where "X = concat cs"
  let ?k = "length b div 3 * 3"
  let ?nb = "drop ?k b"
  have step: "collect buf (map Some (c # cs)) =
     (if length b div 3 = 0 then collect b (map Some cs)
      else Some (b64encode (take ?k b)) # collect ?nb (map Some cs))"
    by (simp add: Let_def b_def)
  have tgt: "buf @ concat (c # cs) = b @ X" by (simp add: b_def X_def)
  show ?case
  proof (cases "length b div 3 = 0")
    case True
    then have "length b < 3" by simp
    from Cons.IH[OF this] True show ?thesis unfolding step tgt X_def by simp
  next
    case False
    have "length ?nb = length b mod 3"
      by (simp only: length_drop minus_div_mult_eq_mod)
    then have l: "length ?nb < 3" by simp
    define m where "m = length (?nb @ X)"
    have lk: "length (take ?k b) = ?k" by simp
    have "length (b @ X) = ?k + m" by (simp add: m_def)
    moreover have "(?k + m) div 3 * 3 = ?k + m div 3 * 3" by (simp add: algebra_simps)
    ultimately have d: "length (b @ X) div 3 * 3 = ?k + m div 3 * 3" by simp
    have "take (length (b @ X) div 3 * 3) (b @ X)
            = take (?k + m div 3 * 3) (take ?k b @ (?nb @ X))"
      by (simp only: d append_assoc[symmetric] append_take_drop_id)
    also have "\<dots> = take ?k b @ take (m div 3 * 3) (?nb @ X)"
      by (simp only: take_append lk) simp
    finally have "b64encode (take (length (b @ X) div 3 * 3) (b @ X))
            = b64encode (take ?k b) @ b64encode (take (m div 3 * 3) (?nb @ X))"
      by (simp only: b64encode_append[OF take3_dvd])
    with Cons.IH[OF l] False show ?thesis unfolding step tgt by (simp add: m_def X_def)
  qed
qed

text \<open>
  C6. However the input arrives in chunks, the chunks yielded by the streaming
  base64 stage concatenate to the standard base64 encoding of the whole input;
  no chunk before the last contains the padding character, and the last chunk
  is the encoding, with its padding, of the tail left over after the complete
  three-byte groups. (Lemma \<open>collect_prefix\<close>: what has been yielded after any
  part of the input is the encoding of the complete groups received so far.)
\<close>

theorem stream_base64_equiv:
  "concat (yielded (collect [] (map Some cs @ [None]))) = b64encode (concat cs)
   \<and> yielded (collect [] (map Some cs @ [None])) \<noteq> []
   \<and> (\<forall>y \<in> set (butlast (yielded (collect [] (map Some cs @ [None])))). CHR ''='' \<notin> set y)
   \<and> last (yielded (collect [] (map Some cs @ [None])))
        = b64encode (drop (length (concat cs) div 3 * 3) (concat cs))"
  using collect_concat[of "[]" cs] collect_yields[of "[]" cs] collect_no_pad[of "[]" cs]
    collect_last[of "[]" cs]
  by simp

theorem stream_base64_equiv_witness:
  "yielded (collect [] [Some [0x4D], Some [0x61, 0x6E, 0x4D], Some [], Some [1, 2, 3, 4, 5, 6, 7], None])
     = [''TWFu'', ''TQECAwQF'', ''Bgc='']
   \<and> b64encode [0x4D, 0x61, 0x6E, 0x4D, 1, 2, 3, 4, 5, 6, 7] = ''TWFuTQECAwQFBgc=''"
proof -
  have e: "yielded (collect [] [Some [0x4D], Some [0x61, 0x6E, 0x4D], Some [], Some [1, 2, 3, 4, 5, 6, 7], None])
     = [''TWFu'', ''TQECAwQF'', ''Bgc='']"
    by (simp add: b64c_def b64chars_def Let_def)
  from stream_base64_equiv[of "[[0x4D], [0x61, 0x6E, 0x4D], [], [1, 2, 3, 4, 5, 6, 7]]"]
  have "concat [''TWFu'', ''TQECAwQF'', ''Bgc='']
          = b64encode [0x4D, 0x61, 0x6E, 0x4D, 1, 2, 3, 4, 5, 6, 7]"
    by (simp only: e list.map concat.simps append_Nil append_Cons append_Nil2)
  with e show ?thesis by (simp del: b64encode.simps)
qed

section \<open>Properties of the audio framing\<close>

lemma stride2_Cons2: "stride 2 (x # y # xs) = x # stride 2 xs"
  by simp

lemma stride2_length:
  "length (stride 2 p) = (length p + 1) div 2" "length (stride 2 (drop 1 p)) = length p div 2"
  by (induction p rule: induct_list012) simp_all

lemma zip_star2_Cons: "zip_star [x # es, y # os] = [x, y] # zip_star [es, os]"
  by (subst zip_star.simps) simp

lemma zip_star2_Nil: "zip_star [[], os] = []"
  by (subst zip_star.simps) simp

lemma weave:
  "(odd (length p) \<longrightarrow> z \<noteq> []) \<Longrightarrow>
   take (length p) (concat (zip_star [stride 2 p, stride 2 (drop 1 p) @ z])) = p"
proof (induction p rule: induct_list012)
  case 1
  then show ?case by (simp add: zip_star2_Nil)
next
  case (2 x)
  then obtain a z' where "z = a # z'" by (cases z) auto
  then show ?case by (simp add: zip_star2_Cons zip_star2_Nil)
next
  case (3 x y zs)
  then show ?case by (simp add: zip_star2_Cons)
qed

lemma pack_HH_ok:
  "a < 65536 \<Longrightarrow> b < 65536 \<Longrightarrow>
   \<exists>h. pack_HH a b = Some h \<and> length h = 4 \<and> unpack_HH h = Some (a, b)"
proof -
  assume a: "a < 65536" and b: "b < 65536"
  have u: "\<And>n. n < 256 \<Longrightarrow> unat (of_nat n :: byte) = n" by (simp only: unat_of_nat) simp
  have "a div 256 < 256" "a mod 256 < 256" "b div 256 < 256" "b mod 256 < 256"
    using a b by simp_all
  then show ?thesis using a b by (simp add: pack_HH_def u)
qed


lemma pack_frame: "length b < 65536 \<Longrightarrow> pack_HH 0xCADE (length b) = Some (take 4 (frame b))"
  by (simp add: pack_HH_def frame_def)

lemma unat_byte': "n < 256 \<Longrightarrow> unat (of_nat n :: byte) = n"
  by (simp only: unat_of_nat) simp

lemma unpack_frame:
  "length b < 65536 \<Longrightarrow> unpack_HH (take 4 (frame b @ R)) = Some (0xCADE, length b)"
proof -
  assume "length b < 65536"
  then have "length b div 256 < 256" "length b mod 256 < 256" by simp_all
  then show ?thesis by (simp add: frame_def unat_byte')
qed

lemma frame_len [simp]: "length (frame b) = length b + 4"
  by (simp add: frame_def)

lemma frame_drop4 [simp]: "drop 4 (frame b) = b"
  by (simp add: frame_def)

lemma frame_payload:
  "take (length b) (drop 4 (frame b @ R)) = b" "drop (length b + 4) (frame b @ R) = R"
proof -
  have d: "drop 4 (frame b @ R) = b @ R" by (simp add: frame_def)
  show "take (length b) (drop 4 (frame b @ R)) = b" unfolding d by simp
  have "drop (length b + 4) (frame b @ R) = drop (length b) (drop 4 (frame b @ R))"
    by (simp only: drop_drop)
  then show "drop (length b + 4) (frame b @ R) = R" unfolding d by simp
qed

lemma emit_szs_frame_Cons:
  assumes "length e < 65536"
  shows "emit_szs ((frame e @ R) # d)
           = (case emit_szs d of Sizes szs \<Rightarrow> Sizes (length e # szs) | r \<Rightarrow> r)"
  unfolding emit_szs.simps unpack_frame[OF assms]
  by simp

lemma tx_send2:
  assumes "length p \<le> 131070"
  shows "tx_send 2 p [P0, P1]
           = Inr [P0 @ frame (stride 2 p), P1 @ frame (stride 2 (drop 1 p))]"
proof -
  have l: "length (stride 2 p) < 65536" "length (stride 2 (drop 1 p)) < 65536"
    using assms by (simp_all add: stride2_length)
  have u: "[0..<2] = [0, 1]" by (simp add: upt_rec)
  show ?thesis
    using pack_frame[OF l(1)] pack_frame[OF l(2)]
    by (simp add: tx_send_def u py_slice_def frame_def)
qed

lemma emit_two:
  assumes "length e < 65536" "length os < 65536"
  shows "emit \<lparr>dec = [frame e @ R0, frame os @ R1], emitted = m\<rparr> =
           (if e = [] then Inr (False, [], \<lparr>dec = [R0, R1], emitted = m\<rparr>)
            else Inr (True,
                      take (length e + length os)
                        (concat (zip_star
                           [e, if length os < length e then os @ replicate 4 0 else os])),
                      \<lparr>dec = [R0, R1], emitted = m + length e\<rparr>))"
proof -
  have sz: "emit_szs [frame e @ R0, frame os @ R1] = Sizes [length e, length os]"
    by (simp only: emit_szs_frame_Cons[OF assms(1)] emit_szs_frame_Cons[OF assms(2)]
          emit_szs.simps(1) emit_parse.case)
  show ?thesis
    unfolding emit_def rx_state.simps sz emit_parse.case
    by (simp add: Let_def frame_payload add.commute)
qed

lemma emit_frame2:
  assumes "length p \<le> 131070"
  shows "emit \<lparr>dec = [frame (stride 2 p) @ R0, frame (stride 2 (drop 1 p)) @ R1], emitted = m\<rparr>
           = Inr (p \<noteq> [], p, \<lparr>dec = [R0, R1], emitted = m + length (stride 2 p)\<rparr>)"
proof -
  define e where "e = stride 2 p"
  define os where "os = stride 2 (drop 1 p)"
  have le: "length e = (length p + 1) div 2" unfolding e_def by (rule stride2_length(1))
  have lo: "length os = length p div 2" unfolding os_def by (rule stride2_length(2))
  have l: "length e < 65536" "length os < 65536"
    using assms by (simp_all add: le lo)
  have len: "length e + length os = length p"
    unfolding le lo by presburger
  have e0: "e = [] \<longleftrightarrow> p = []" unfolding e_def by (cases p) simp_all
  define z :: "byte list" where "z = (if length os < length e then replicate 4 0 else [])"
  have z: "(if length os < length e then os @ replicate 4 0 else os) = os @ z"
    by (simp add: z_def)
  have "odd (length p) \<longrightarrow> z \<noteq> []"
    unfolding z_def le lo by (auto elim!: oddE)
  from weave[OF this] have w: "take (length p) (concat (zip_star [e, os @ z])) = p"
    by (simp only: e_def os_def)
  show ?thesis
    unfolding e_def[symmetric] os_def[symmetric] emit_two[OF l] z len w
    using e0 by simp
qed


lemma emit_szs_zeros: "emit_szs (replicate a 0 # d) = Not_ready"
proof (cases "a < 4")
  case True
  then show ?thesis by simp
next
  case False
  have "replicate 4 (0 :: byte) = [0, 0, 0, 0]"
    by (simp add: numeral_eq_Suc)
  with False show ?thesis by simp
qed

lemma emit_zeros:
  "emit \<lparr>dec = replicate a 0 # d, emitted = m\<rparr>
     = Inr (False, [], \<lparr>dec = replicate a 0 # d, emitted = m\<rparr>)"
  by (simp add: emit_def emit_szs_zeros del: emit_szs.simps)

lemma rx_flush_idle:
  assumes "emit s = Inr (False, [], s)"
  shows "rx_flush k s out = Inr (out, s)"
proof (induction "21 - k" arbitrary: k rule: less_induct)
  case less
  show ?case
  proof (cases "k + 1 > 20")
    case True
    then show ?thesis by (subst rx_flush.simps) (simp add: assms)
  next
    case False
    then have "21 - (k + 1) < 21 - k" by simp
    from less[OF this] False show ?thesis by (subst rx_flush.simps) (simp add: assms)
  qed
qed

lemma rd_loop_False: "rd_loop False s acc = acc @ s"
proof (induction "length s" arbitrary: s acc rule: less_induct)
  case less
  show ?case
  proof (cases "s = []")
    case True
    then show ?thesis by (subst rd_loop.simps) simp
  next
    case False
    then have "length (drop 256 s) < length s" by simp
    from less[OF this] False show ?thesis by (subst rd_loop.simps) (simp add: Let_def)
  qed
qed

lemma rd_strips_pad: "rd (replicate 64 0 @ [0xFF] @ X) = X"
proof -
  let ?s = "replicate 64 (0 :: byte) @ [0xFF] @ X"
  have t: "take 256 ?s = replicate 64 0 @ [0xFF] @ take 191 X" by simp
  have d: "drop 256 ?s = drop 191 X" by simp
  have w: "dropWhile (\<lambda>b. b = 0) (replicate 64 (0 :: byte) @ [0xFF] @ take 191 X)
             = 0xFF # take 191 X"
    by (simp add: dropWhile_append)
  show ?thesis
    unfolding rd_def
    by (subst rd_loop.simps) (simp only: t d w Let_def, simp add: rd_loop_False)
qed

lemma delivers_Nil: "delivers b [] [] []"
  unfolding delivers_def by auto

lemma deliver_step:
  assumes p: "length p \<le> 131070"
    and G: "delivers b' G0 G1 d"
    and e: "p = [] \<longrightarrow> b < 20 \<and> b < b'"
  shows "delivers b (frame (stride 2 p) @ G0) (frame (stride 2 (drop 1 p)) @ G1) (p @ d)"
  unfolding delivers_def
proof (intro allI impI)
  fix k R0 R1 m out
  assume k: "k \<le> b"
  let ?s = "\<lparr>dec = [(frame (stride 2 p) @ G0) @ R0, (frame (stride 2 (drop 1 p)) @ G1) @ R1],
             emitted = m\<rparr>"
  let ?m = "m + length (stride 2 p)"
  have em: "emit ?s = Inr (p \<noteq> [], p, \<lparr>dec = [G0 @ R0, G1 @ R1], emitted = ?m\<rparr>)"
    using emit_frame2[OF p, of "G0 @ R0" "G1 @ R1" m] by (simp only: append_assoc)
  show "\<exists>k' m'. rx_flush k ?s out = rx_flush k' \<lparr>dec = [R0, R1], emitted = m'\<rparr> (out @ p @ d)"
  proof (cases "p = []")
    case False
    have "rx_flush k ?s out = rx_flush 0 \<lparr>dec = [G0 @ R0, G1 @ R1], emitted = ?m\<rparr> (out @ p)"
      by (subst rx_flush.simps) (simp only: em sum.case prod.case, simp add: False)
    moreover from G obtain k' m' where
      "rx_flush 0 \<lparr>dec = [G0 @ R0, G1 @ R1], emitted = ?m\<rparr> (out @ p)
         = rx_flush k' \<lparr>dec = [R0, R1], emitted = m'\<rparr> ((out @ p) @ d)"
      unfolding delivers_def by (meson le0)
    ultimately show ?thesis by auto
  next
    case True
    with e k have k20: "\<not> k + 1 > 20" and kb: "k + 1 \<le> b'" by auto
    have "rx_flush k ?s out = rx_flush (k + 1) \<lparr>dec = [G0 @ R0, G1 @ R1], emitted = ?m\<rparr> out"
      using k20 by (subst rx_flush.simps) (simp only: em sum.case prod.case, simp add: True)
    moreover from G kb obtain k' m' where
      "rx_flush (k + 1) \<lparr>dec = [G0 @ R0, G1 @ R1], emitted = ?m\<rparr> out
         = rx_flush k' \<lparr>dec = [R0, R1], emitted = m'\<rparr> (out @ d)"
      unfolding delivers_def by meson
    ultimately show ?thesis using True by auto
  qed
qed


lemma tx_loop2_read:
  fixes stdin rem :: "byte list"
  assumes "stdin \<noteq> []"
  defines "buf \<equiv> rem @ take 65526 stdin"
  defines "n \<equiv> length buf mod 2"
  assumes "length buf \<le> 131070"
  shows "tx_loop 2 stdin rem [P0, P1]
           = tx_loop 2 (drop 65526 stdin) (drop (length buf - n) buf)
               [P0 @ frame (stride 2 (take (length buf - n) buf)),
                P1 @ frame (stride 2 (drop 1 (take (length buf - n) buf)))]"
proof -
  have t: "take 65526 stdin \<noteq> []" using assms(1) by simp
  have l: "length (take (length buf - n) buf) \<le> 131070" using assms(4) by simp
  have eq: "tx_loop 2 stdin rem [P0, P1] =
     (case tx_send 2 (if n \<noteq> 0 then take (length buf - n) buf else buf) [P0, P1] of
        Inl e \<Rightarrow> Inl e
      | Inr procs' \<Rightarrow>
          tx_loop 2 (drop 65526 stdin) (if n \<noteq> 0 then drop (length buf - n) buf else []) procs')"
  proof -
    have K: "(32767 - 4) * 2 = (65526 :: nat)" by simp
    show ?thesis
      by (subst tx_loop.simps) (simp only: Let_def K t if_True simp_thms buf_def n_def)
  qed
  show ?thesis
  proof (cases "n = 0")
    case True
    with tx_send2[OF assms(4), of P0 P1] show ?thesis
      unfolding eq by simp
  next
    case False
    with tx_send2[OF l, of P0 P1] show ?thesis
      unfolding eq by simp
  qed
qed

lemma tx_loop2_eof:
  "tx_loop 2 [] [] procs = Inr procs"
  "rem \<noteq> [] \<Longrightarrow> length rem \<le> 131070 \<Longrightarrow>
   tx_loop 2 [] rem [P0, P1]
     = tx_loop 2 [] [] [P0 @ frame (stride 2 rem), P1 @ frame (stride 2 (drop 1 rem))]"
proof -
  show "tx_loop 2 [] [] procs = Inr procs" by (subst tx_loop.simps) simp
  assume r: "rem \<noteq> []" "length rem \<le> 131070"
  from r(1) tx_send2[OF r(2), of P0 P1]
  show "tx_loop 2 [] rem [P0, P1]
     = tx_loop 2 [] [] [P0 @ frame (stride 2 rem), P1 @ frame (stride 2 (drop 1 rem))]"
    by (subst tx_loop.simps) simp
qed

lemma tx_rx:
  "length rem \<le> 1 \<Longrightarrow>
   \<exists>F0 F1. tx_loop 2 stdin rem [P0, P1] = Inr [P0 @ F0, P1 @ F1]
     \<and> delivers (if rem = [] then 19 else 20) F0 F1 (rem @ stdin)"
proof (induction "2 * length stdin + length rem" arbitrary: stdin rem P0 P1 rule: less_induct)
  case less
  show ?case
  proof (cases "stdin = []")
    case False
    define buf where "buf = rem @ take 65526 stdin"
    define n where "n = length buf mod 2"
    define p where "p = take (length buf - n) buf"
    define r' where "r' = drop (length buf - n) buf"
    have n1: "n \<le> 1" by (simp add: n_def)
    have lb: "length buf \<le> 65527" "1 \<le> length buf"
      using less.prems False by (simp_all add: buf_def Suc_le_eq)
    then have lb': "length buf \<le> 131070" by simp
    have nb: "n \<le> length buf" using n1 lb(2) by simp
    have lr: "length r' = n" using nb by (simp add: r'_def)
    then have lr1: "length r' \<le> 1" using n1 by simp
    have lp: "length p \<le> 131070" using lb' by (simp add: p_def)
    have step: "tx_loop 2 stdin rem [P0, P1]
                  = tx_loop 2 (drop 65526 stdin) r'
                      [P0 @ frame (stride 2 p), P1 @ frame (stride 2 (drop 1 p))]"
      using tx_loop2_read[OF False, of rem P0 P1] lb'
      by (simp only: buf_def[symmetric] n_def[symmetric] p_def[symmetric] r'_def[symmetric])
    have "length (drop 65526 stdin) < length stdin" using False by simp
    then have "2 * length (drop 65526 stdin) + length r' < 2 * length stdin + length rem"
      using lr1 by linarith
    from less.hyps[OF this lr1, of "P0 @ frame (stride 2 p)" "P1 @ frame (stride 2 (drop 1 p))"]
    obtain G0 G1 where
      G: "tx_loop 2 (drop 65526 stdin) r'
            [P0 @ frame (stride 2 p), P1 @ frame (stride 2 (drop 1 p))]
          = Inr [(P0 @ frame (stride 2 p)) @ G0, (P1 @ frame (stride 2 (drop 1 p))) @ G1]"
      and D: "delivers (if r' = [] then 19 else 20) G0 G1 (r' @ drop 65526 stdin)"
      by blast
    have e: "p = [] \<longrightarrow> (if rem = [] then 19 else 20) < (20::nat)
               \<and> (if rem = [] then 19 else 20) < (if r' = [] then 19 else (20::nat))"
    proof
      assume "p = []"
      then have "length buf - n = 0" using nb lb(2) by (auto simp: p_def)
      with nb n1 lb(2) have b1: "length buf = 1" and "n = 1" by simp_all
      then have "r' \<noteq> []" using lr by auto
      have "1 \<le> length (take 65526 stdin)"
        using False by (cases stdin) simp_all
      moreover have "length buf = length rem + length (take 65526 stdin)"
        unfolding buf_def by (rule length_append)
      ultimately have "length rem = 0" using b1 by linarith
      then have "rem = []" by simp
      with \<open>r' \<noteq> []\<close> show "(if rem = [] then 19 else 20) < (20::nat)
               \<and> (if rem = [] then 19 else 20) < (if r' = [] then 19 else (20::nat))"
        by simp
    qed
    have data: "p @ r' @ drop 65526 stdin = rem @ stdin"
    proof -
      have "p @ r' = buf" by (simp add: p_def r'_def)
      then have "p @ r' @ drop 65526 stdin = buf @ drop 65526 stdin" by simp
      then show ?thesis by (simp add: buf_def)
    qed
    from deliver_step[OF lp D e]
    have "delivers (if rem = [] then 19 else 20) (frame (stride 2 p) @ G0)
            (frame (stride 2 (drop 1 p)) @ G1) (rem @ stdin)"
      by (simp only: data)
    with step G show ?thesis by (intro exI[of _ "frame (stride 2 p) @ G0"]
          exI[of _ "frame (stride 2 (drop 1 p)) @ G1"]) simp
  next
    case True
    show ?thesis
    proof (cases "rem = []")
      case r: True
      show ?thesis using True r tx_loop2_eof(1)[of "[P0, P1]"] delivers_Nil[of 19]
        by (intro exI[of _ "[]"]) simp
    next
      case r: False
      have lr: "length rem \<le> 131070" using less.prems by simp
      have step: "tx_loop 2 stdin rem [P0, P1]
           = tx_loop 2 [] [] [P0 @ frame (stride 2 rem), P1 @ frame (stride 2 (drop 1 rem))]"
        using tx_loop2_eof(2)[OF r lr] True by simp
      have "2 * length ([] :: byte list) + length ([] :: byte list) < 2 * length stdin + length rem"
        using r by simp
      from less.hyps[OF this, of "P0 @ frame (stride 2 rem)" "P1 @ frame (stride 2 (drop 1 rem))"]
      obtain G0 G1 where
        G: "tx_loop 2 [] [] [P0 @ frame (stride 2 rem), P1 @ frame (stride 2 (drop 1 rem))]
          = Inr [(P0 @ frame (stride 2 rem)) @ G0, (P1 @ frame (stride 2 (drop 1 rem))) @ G1]"
        and D: "delivers 19 G0 G1 []"
        by auto
      have e: "rem = [] \<longrightarrow> (20::nat) < 20 \<and> (20::nat) < 19" using r by simp
      from deliver_step[OF lr D e]
      have "delivers 20 (frame (stride 2 rem) @ G0) (frame (stride 2 (drop 1 rem)) @ G1) rem"
        by simp
      with step G r True show ?thesis
        by (intro exI[of _ "frame (stride 2 rem) @ G0"]
          exI[of _ "frame (stride 2 (drop 1 rem)) @ G1"]) simp
    qed
  qed
qed

text \<open>
  C1. For every byte sequence \<open>B\<close> on the transmitter's standard input, with two
  channels: the transmitter ends without error, and the receiver, given on each
  channel exactly the bytes the transmitter sent into it, writes exactly \<open>B\<close> to
  its standard output.
\<close>

theorem audio_roundtrip:
  "\<exists>chans. axt_run 2 B = Inr chans \<and> length chans = 2 \<and> axr_emit_all chans = Inr B"
proof -
  let ?pad = "replicate 64 (0 :: byte) @ [0xFF]"
  let ?Z = "replicate 128 (0 :: byte)"
  from tx_rx[of "[]" B ?pad ?pad] obtain F0 F1 where
    tx: "tx_loop 2 B [] [?pad, ?pad] = Inr [?pad @ F0, ?pad @ F1]"
    and D: "delivers 19 F0 F1 B"
    by auto
  have r2: "replicate 2 ?pad = [?pad, ?pad]" by (simp add: numeral_2_eq_2)
  have run: "axt_run 2 B = Inr [?pad @ F0 @ ?Z, ?pad @ F1 @ ?Z]"
    by (simp add: axt_run_def r2 tx del: replicate.simps)
  have rd0: "rd (?pad @ F0 @ ?Z) = F0 @ ?Z" "rd (?pad @ F1 @ ?Z) = F1 @ ?Z"
    using rd_strips_pad[of "F0 @ ?Z"] rd_strips_pad[of "F1 @ ?Z"] by simp_all
  from D obtain k' m' where
    "rx_flush 0 \<lparr>dec = [F0 @ ?Z, F1 @ ?Z], emitted = 0\<rparr> []
       = rx_flush k' \<lparr>dec = [?Z, ?Z], emitted = m'\<rparr> ([] @ B)"
    unfolding delivers_def by (meson le0)
  also have "\<dots> = Inr (B, \<lparr>dec = [?Z, ?Z], emitted = m'\<rparr>)"
    using rx_flush_idle[OF emit_zeros[of 128 "[?Z]" m'], of k' B] by simp
  finally have "axr_emit_all [?pad @ F0 @ ?Z, ?pad @ F1 @ ?Z] = Inr B"
    unfolding axr_emit_all_def list.map rd0 by simp
  with run show ?thesis by (intro exI[of _ "[?pad @ F0 @ ?Z, ?pad @ F1 @ ?Z]"]) simp
qed

end
